theory Spec2Isabelle
  imports Main "HOL-Library.Char_ord" "HOL-Library.List_Lexorder" "HOL-Library.Multiset"
begin

section \<open>Python values used by the two modules\<close>

text \<open>
  Strings are lists of characters; characters are compared by code point
  (\<open>Char_ord\<close>) and strings lexicographically, a proper prefix being smaller
  (\<open>List_Lexorder\<close>), which is how Python compares \<open>str\<close> values.
  The exceptions that the modelled statements can raise are values of \<open>error\<close>.
\<close>

datatype error = IndexError | KeyError | ValueError

text \<open>\<open>seq[i]\<close>: a negative index counts from the end, anything outside raises.\<close>

definition py_getitem :: "'a list \<Rightarrow> int \<Rightarrow> error + 'a" where
  "py_getitem xs i =
     (if 0 \<le> i \<and> i < int (length xs) then Inr (xs ! nat i)
      else if - int (length xs) \<le> i \<and> i < 0 then Inr (xs ! nat (int (length xs) + i))
      else Inl IndexError)"

text \<open>\<open>seq[i:j]\<close> for \<open>0 \<le> i \<le> j\<close>; slicing clips and never raises.\<close>

definition py_slice :: "'a list \<Rightarrow> nat \<Rightarrow> nat \<Rightarrow> 'a list" where
  "py_slice xs i j = take (j - i) (drop i xs)"

text \<open>\<open>s.index(c)\<close>: the first position of \<open>c\<close>, or \<open>ValueError\<close>.\<close>

definition str_index :: "string \<Rightarrow> char \<Rightarrow> error + int" where
  "str_index s c =
     (if c \<in> set s then Inr (int (length (takeWhile (\<lambda>x. x \<noteq> c) s)))
      else Inl ValueError)"

text \<open>\<open>str(n)\<close> as an f-string renders an integer: decimal digits, a leading minus.\<close>

function str_nat :: "nat \<Rightarrow> string" where
  "str_nat n =
     (if n < 10 then [char_of (48 + n)]
      else str_nat (n div 10) @ [char_of (48 + n mod 10)])"
  by pat_completeness auto
termination
  by (relation "measure id") auto

declare str_nat.simps [simp del]

definition str_int :: "int \<Rightarrow> string" where
  "str_int i = (if i < 0 then CHR ''-'' # str_nat (nat (- i)) else str_nat (nat i))"

text \<open>Truth value of an optional integer argument (\<open>None\<close> and \<open>0\<close> are false).\<close>

fun truthy :: "int option \<Rightarrow> bool" where
  "truthy None = False"
| "truthy (Some i) = (i \<noteq> 0)"

section \<open>The alphabet (both modules build the same set)\<close>

definition ALPHABET :: "char set" where
  "ALPHABET =
     set (map char_of ([32 :: nat] @ [48 ..< 48 + 10] @ [65 ..< 65 + 26] @ [97 ..< 97 + 26]))"

section \<open>bw\_transform.py\<close>

fun last_chars :: "string \<Rightarrow> string list \<Rightarrow> error + string" where
  "last_chars bwt [] = Inr bwt"
| "last_chars bwt (rotation # rest) =
     (case py_getitem rotation (- 1) of
        Inl e \<Rightarrow> Inl e
      | Inr c \<Rightarrow> last_chars (bwt @ [c]) rest)"

definition sorted_rotations_to_bwt :: "string list \<Rightarrow> error + string" where
  "sorted_rotations_to_bwt sorted_rotations = last_chars [] sorted_rotations"

definition sort_rotations :: "string list \<Rightarrow> string list" where
  "sort_rotations rotations = sort rotations"

definition make_rotations :: "string \<Rightarrow> string list" where
  "make_rotations text =
     (let n = length text;
          text2 = text @ text
      in foldl (\<lambda>rotations i. rotations @ [py_slice text2 i (i + n)]) [] [0 ..< n])"

definition bw_transform :: "string \<Rightarrow> char \<Rightarrow> error + string" where
  "bw_transform text end_char =
     (let text = text @ [end_char];
          rotations = make_rotations text;
          sorted_rotations = sort_rotations rotations
      in sorted_rotations_to_bwt sorted_rotations)"

section \<open>invert\_bwt.py\<close>

definition sort_string :: "string \<Rightarrow> string" where
  "sort_string astr = sort astr"

text \<open>First loop of \<open>build_map\<close>: the dictionary from a character to the queue of its
  positions. The source's parameter \<open>last\<close> is written \<open>bwt\<close> here.\<close>

definition add_index :: "string \<Rightarrow> (char \<rightharpoonup> int list) \<Rightarrow> nat \<Rightarrow> (char \<rightharpoonup> int list)" where
  "add_index bwt d i =
     (let char = bwt ! i
      in case d char of
           None \<Rightarrow> d(char \<mapsto> [int i])
         | Some q \<Rightarrow> d(char \<mapsto> q @ [int i]))"

text \<open>Second loop: \<open>d[c]\<close> raises \<open>KeyError\<close> on a missing key, \<open>popleft\<close> raises
  \<open>IndexError\<close> on an empty queue.\<close>

fun pop_all :: "(char \<rightharpoonup> int list) \<Rightarrow> int list \<Rightarrow> string \<Rightarrow> error + int list" where
  "pop_all d lf_map [] = Inr lf_map"
| "pop_all d lf_map (c # first) =
     (case d c of
        None \<Rightarrow> Inl KeyError
      | Some [] \<Rightarrow> Inl IndexError
      | Some (i # q) \<Rightarrow> pop_all (d(c \<mapsto> q)) (lf_map @ [i]) first)"

definition build_map :: "string \<Rightarrow> error + int list" where
  "build_map bwt =
     (let first = sort_string bwt;
          d = foldl (add_index bwt) Map.empty [0 ..< length bwt]
      in pop_all d [] first)"

text \<open>The walk of \<open>text_using_map\<close>; \<open>text\<close> is a list of strings joined at the end.\<close>

fun walk :: "string \<Rightarrow> int list \<Rightarrow> int \<Rightarrow> string list \<Rightarrow> nat list \<Rightarrow> error + string list" where
  "walk bwt lf_map x text [] = Inr text"
| "walk bwt lf_map x text (i # rest) =
     (case py_getitem lf_map x of
        Inl e \<Rightarrow> Inl e
      | Inr x' \<Rightarrow>
          (case py_getitem bwt x' of
             Inl e \<Rightarrow> Inl e
           | Inr c \<Rightarrow>
               if i < length text then walk bwt lf_map x' (text[i := [c]]) rest
               else Inl IndexError))"

definition text_using_map :: "string \<Rightarrow> int list \<Rightarrow> char \<Rightarrow> error + string" where
  "text_using_map bwt lf_map end_char =
     (case str_index bwt end_char of
        Inl e \<Rightarrow> Inl e
      | Inr x \<Rightarrow>
          (case walk bwt lf_map x (map (\<lambda>_. []) bwt) [0 ..< length bwt] of
             Inl e \<Rightarrow> Inl e
           | Inr text \<Rightarrow> Inr (concat text)))"

text \<open>\<open>invert_bwt_via_map\<close> calls \<open>text_using_map(bwt, lf_map)\<close> with two arguments, so
  the walk always looks for the default \<open>'$'\<close>, whatever \<open>end_char\<close> is.\<close>

definition invert_bwt_via_map :: "string \<Rightarrow> char \<Rightarrow> error + string" where
  "invert_bwt_via_map bwt end_char =
     (case build_map bwt of
        Inl e \<Rightarrow> Inl e
      | Inr lf_map \<Rightarrow>
          (case text_using_map bwt lf_map CHR ''$'' of
             Inl e \<Rightarrow> Inl e
           | Inr text \<Rightarrow> Inr (butlast text)))"

text \<open>\<open>validate_bwt\<close> returns a string in every case: an error message or the bwt.\<close>

definition validate_bwt :: "string \<Rightarrow> int option \<Rightarrow> char \<Rightarrow> string" where
  "validate_bwt string line_no end_char =
     (let n = length string;
          indices_non = filter (\<lambda>i. string ! i \<notin> ALPHABET) [0 ..< n]
      in if length indices_non = 0 then
           (if truthy line_no
            then ''Line no. '' @ str_int (the line_no) @ '' has no symbols.''
            else ''String has no symbols.'')
         else if length indices_non > 1 then
           (if truthy line_no
            then ''Line no. '' @ str_int (the line_no) @ '' has more than one symbols.''
            else ''String has more than one symbols.'')
         else
           (let i = indices_non ! 0
            in py_slice string 0 i @ [end_char] @ drop (i + 1) string))"

section \<open>Notions used to state the properties\<close>

text \<open>The two messages \<open>validate_bwt\<close> can return for a given \<open>line_no\<close>.\<close>

definition sentinel_error_messages :: "int option \<Rightarrow> string set" where
  "sentinel_error_messages line_no =
     (if truthy line_no
      then {''Line no. '' @ str_int (the line_no) @ '' has no symbols.'',
            ''Line no. '' @ str_int (the line_no) @ '' has more than one symbols.''}
      else {''String has no symbols.'', ''String has more than one symbols.''})"

text \<open>The positions of a value in a list, in increasing order, and the number of earlier
  occurrences of the value found at a position.\<close>

definition positions :: "'a list \<Rightarrow> 'a \<Rightarrow> nat list" where
  "positions xs c = filter (\<lambda>j. xs ! j = c) [0 ..< length xs]"

definition occ_before :: "'a list \<Rightarrow> nat \<Rightarrow> nat" where
  "occ_before xs k = length (filter (\<lambda>y. y = xs ! k) (take k xs))"

text \<open>The queue a dictionary holds for a key; a missing key has nothing to pop.\<close>

definition queue_of :: "('k \<rightharpoonup> 'v list) \<Rightarrow> 'k \<Rightarrow> 'v list" where
  "queue_of d c = (case d c of None \<Rightarrow> [] | Some q \<Rightarrow> q)"

text \<open>The rotations of a text in the order of their offsets, and the sorted matrix.\<close>

definition rotations_of :: "'a list \<Rightarrow> 'a list list" where
  "rotations_of t = map (\<lambda>i. rotate i t) [0 ..< length t]"

definition sorted_matrix :: "('a :: linorder) list \<Rightarrow> 'a list list" where
  "sorted_matrix t = sort (rotations_of t)"

text \<open>A text that ends with a character occurring nowhere else in it.\<close>

definition sentinel_terminated :: "'a list \<Rightarrow> bool" where
  "sentinel_terminated t \<longleftrightarrow> t \<noteq> [] \<and> last t \<notin> set (butlast t)"

section \<open>The forward pipeline\<close>

lemma foldl_snoc_map: "foldl (\<lambda>acc i. acc @ [f i]) acc xs = acc @ map f xs"
  by (induction xs arbitrary: acc) simp_all

lemma slice_double: "i < length t \<Longrightarrow> py_slice (t @ t) i (i + length t) = drop i t @ take i t"
  by (simp add: py_slice_def)

lemma make_rotations_map:
  "make_rotations t = map (\<lambda>i. drop i t @ take i t) [0 ..< length t]"
  by (simp add: make_rotations_def Let_def foldl_snoc_map slice_double)

lemma make_rotations_rotate: "make_rotations t = rotations_of t"
  unfolding make_rotations_map rotations_of_def
  by (rule map_cong) (simp_all add: rotate_drop_take)

text \<open>
  Claim C6 (rotation enumerator contract). For every string \<open>t\<close> of length \<open>n\<close>,
  \<open>make_rotations t\<close> has exactly \<open>n\<close> elements, the \<open>i\<close>-th (from 0) being \<open>t\<close> shifted
  left by \<open>i\<close> positions, \<open>t[i:] + t[:i]\<close>; element 0 is \<open>t\<close> itself.
\<close>

theorem make_rotations_contract:
  "length (make_rotations t) = length t \<and>
   (\<forall>i < length t. make_rotations t ! i = drop i t @ take i t) \<and>
   (t \<noteq> [] \<longrightarrow> make_rotations t ! 0 = t)"
  by (simp add: make_rotations_map)

theorem make_rotations_contract_witness:
  "length (make_rotations ''ab$'') = 3 \<and>
   make_rotations ''ab$'' ! 1 = ''b$a'' \<and>
   make_rotations ''ab$'' ! 0 = ''ab$''"
  using make_rotations_contract [of "''ab$''"] by simp

lemma getitem_last: "r \<noteq> [] \<Longrightarrow> py_getitem r (- 1) = Inr (last r)"
  by (cases r rule: rev_cases) (simp_all add: py_getitem_def nat_add_distrib)

lemma last_chars_map:
  "\<forall>r \<in> set rs. r \<noteq> [] \<Longrightarrow> last_chars acc rs = Inr (acc @ map last rs)"
  by (induction rs arbitrary: acc) (simp_all add: getitem_last)

text \<open>
  Claim C8 (scenario). \<open>bw_transform("mississippi", "$")\<close> is \<open>"ipssm$pissii"\<close> and
  \<open>invert_bwt_via_map("ipssm$pissii", "$")\<close> is \<open>"mississippi"\<close>.
\<close>

theorem scenario_mississippi:
  "bw_transform ''mississippi'' CHR ''$'' = Inr ''ipssm$pissii'' \<and>
   invert_bwt_via_map ''ipssm$pissii'' CHR ''$'' = Inr ''mississippi''"
  by code_simp

text \<open>
  Claim C9 (boundary). For every sentinel \<open>s\<close> the empty text transforms, without
  failure, to \<open>s\<close> alone; and \<open>bw_transform("a", "$")\<close> is \<open>"a$"\<close>.
\<close>

theorem bw_transform_boundary:
  "bw_transform [] s = Inr [s] \<and> bw_transform ''a'' CHR ''$'' = Inr ''a$''"
proof
  show "bw_transform [] s = Inr [s]"
    by (simp add: bw_transform_def make_rotations_map sort_rotations_def
        sorted_rotations_to_bwt_def getitem_last)
  show "bw_transform ''a'' CHR ''$'' = Inr ''a$''"
    by code_simp
qed

section \<open>The order of the sentinel\<close>

lemma alphabet_after_sentinel: "\<forall>c \<in> ALPHABET. c \<noteq> CHR '' '' \<longrightarrow> CHR ''$'' < c"
  by code_simp

lemma space_before_sentinel: "CHR '' '' < CHR ''$''"
  by code_simp

lemma sort_nth0_least:
  fixes xs :: "('a :: linorder) list"
  assumes "m \<in> set xs" and "\<forall>y \<in> set xs. m \<le> y"
  shows "sort xs ! 0 = m"
proof -
  have "set (sort xs) = set xs" by simp
  with assms(1) have ne: "sort xs \<noteq> []" by force
  then obtain y ys where yys: "sort xs = y # ys" by (cases "sort xs") auto
  have "sorted (y # ys)" using sorted_sort [of xs] yys by simp
  then have a: "\<forall>z \<in> set ys. y \<le> z" by simp
  have s: "insert y (set ys) = set xs" using set_sort [of "\<lambda>x. x" xs] yys by simp
  have "y \<le> m" using a s assms(1) by auto
  moreover have "m \<le> y" using assms(2) s by auto
  ultimately show ?thesis using yys by simp
qed

text \<open>
  Claim C2 as stated: in the order used by both sorts the sentinel \<open>'$'\<close> precedes every
  character of the permitted alphabet, so \<open>sort_string\<close> puts the sentinel at position 0 of
  any string containing it. The space (code point 32) is in the alphabet and precedes
  \<open>'$'\<close> (code point 36): the claim fails on the string made of a space and the sentinel.
\<close>

theorem sentinel_first_counterexample:
  "CHR '' '' \<in> ALPHABET \<and> \<not> CHR ''$'' < CHR '' '' \<and>
   CHR ''$'' \<in> set '' $'' \<and> sort_string '' $'' ! 0 \<noteq> CHR ''$''"
  by code_simp

text \<open>
  Claim C2, amended: the sentinel \<open>'$'\<close> precedes every digit and ASCII letter of the
  alphabet, the space precedes the sentinel, and for every string that contains the
  sentinel, contains no space and is otherwise over the alphabet, \<open>sort_string\<close> places
  the sentinel at position 0.
\<close>

theorem sentinel_order:
  "(\<forall>c \<in> ALPHABET. c \<noteq> CHR '' '' \<longrightarrow> CHR ''$'' < c) \<and>
   CHR '' '' < CHR ''$'' \<and>
   (CHR ''$'' \<in> set astr \<and> CHR '' '' \<notin> set astr \<and> set astr \<subseteq> insert CHR ''$'' ALPHABET
      \<longrightarrow> sort_string astr ! 0 = CHR ''$'')"
proof (intro conjI impI)
  show "\<forall>c \<in> ALPHABET. c \<noteq> CHR '' '' \<longrightarrow> CHR ''$'' < c"
    by (rule alphabet_after_sentinel)
  show "CHR '' '' < CHR ''$''"
    by (rule space_before_sentinel)
next
  assume h: "CHR ''$'' \<in> set astr \<and> CHR '' '' \<notin> set astr \<and> set astr \<subseteq> insert CHR ''$'' ALPHABET"
  have "\<forall>y \<in> set astr. CHR ''$'' \<le> y"
  proof
    fix y assume y: "y \<in> set astr"
    show "CHR ''$'' \<le> y"
    proof (cases "y = CHR ''$''")
      case True then show ?thesis by simp
    next
      case False
      with h y have "y \<in> ALPHABET" "y \<noteq> CHR '' ''" by blast+
      with alphabet_after_sentinel have "CHR ''$'' < y" by blast
      then show ?thesis by (rule less_imp_le)
    qed
  qed
  with h have "sort astr ! 0 = CHR ''$''"
    by (intro sort_nth0_least) simp_all
  then show "sort_string astr ! 0 = CHR ''$''"
    by (simp only: sort_string_def)
qed

theorem sentinel_order_witness:
  "CHR ''7'' \<in> ALPHABET \<and> CHR ''$'' < CHR ''7'' \<and>
   CHR ''$'' \<in> set ''ipssm$pissii'' \<and> CHR '' '' \<notin> set ''ipssm$pissii'' \<and>
   set ''ipssm$pissii'' \<subseteq> insert CHR ''$'' ALPHABET \<and>
   sort_string ''ipssm$pissii'' ! 0 = CHR ''$''"
proof -
  have a: "CHR ''7'' \<in> ALPHABET" by code_simp
  have a': "CHR ''7'' \<noteq> CHR '' ''" by simp
  have b: "CHR ''$'' \<in> set ''ipssm$pissii'' \<and> CHR '' '' \<notin> set ''ipssm$pissii'' \<and>
   set ''ipssm$pissii'' \<subseteq> insert CHR ''$'' ALPHABET" by code_simp
  note t = sentinel_order [of "''ipssm$pissii''"]
  from t a a' have c: "CHR ''$'' < CHR ''7''" by blast
  from t b have d: "sort_string ''ipssm$pissii'' ! 0 = CHR ''$''" by blast
  from a b c d show ?thesis by blast
qed

section \<open>The sentinel argument of the inversion\<close>

text \<open>
  Claim C1 (round trip for any sentinel): for every text \<open>T\<close> over the alphabet and every
  sentinel \<open>s\<close> not in \<open>T\<close>, inverting the transform of \<open>T\<close> with \<open>s\<close> gives \<open>T\<close> back.
  \<open>invert_bwt_via_map\<close> does not hand \<open>end_char\<close> to \<open>text_using_map\<close>: with the sentinel
  \<open>'#'\<close> the transform of \<open>"a"\<close> is \<open>"a#"\<close>, and its inversion raises \<open>ValueError\<close>.
\<close>

theorem round_trip_other_sentinel_fails:
  "CHR ''#'' \<notin> set ''a'' \<and> set ''a'' \<subseteq> ALPHABET \<and>
   bw_transform ''a'' CHR ''#'' = Inr ''a#'' \<and>
   invert_bwt_via_map ''a#'' CHR ''#'' = Inl ValueError"
  by code_simp

text \<open>
  Claim C3 (absent sentinel is an error): whenever \<open>s\<close> does not occur in \<open>B\<close>,
  \<open>invert_bwt_via_map(B, s)\<close> fails. The walk looks for \<open>'$'\<close>, not for \<open>s\<close>: with
  \<open>B = "a$"\<close> and \<open>s = '#'\<close> the call returns the decoded string \<open>"a"\<close>.
\<close>

theorem absent_sentinel_not_rejected:
  "CHR ''#'' \<notin> set ''a$'' \<and> invert_bwt_via_map ''a$'' CHR ''#'' = Inr ''a''"
  by code_simp

text \<open>
  Claim C5 (length invariant): the transform is one longer than the text, and the
  inversion of a BWT string in which \<open>s\<close> occurs exactly once is one shorter than it.
  For the sentinel \<open>'!'\<close> the transform of \<open>"ab"\<close> is \<open>"b!a"\<close>, in which \<open>'!'\<close> occurs once,
  and its inversion raises \<open>ValueError\<close> instead of returning a string of length 2.
\<close>

theorem invert_length_other_sentinel_fails:
  "bw_transform ''ab'' CHR ''!'' = Inr ''b!a'' \<and> count_list ''b!a'' CHR ''!'' = 1 \<and>
   invert_bwt_via_map ''b!a'' CHR ''!'' = Inl ValueError"
  by code_simp

section \<open>Validation of a decode input\<close>

lemma filter_nth_positions:
  "filter P xs = map (nth xs) (filter (\<lambda>j. P (xs ! j)) [0 ..< length xs])"
proof -
  have "filter P (map (nth xs) [0 ..< length xs]) =
        map (nth xs) (filter (P \<circ> nth xs) [0 ..< length xs])"
    by (rule filter_map)
  then show ?thesis by (simp add: map_nth comp_def)
qed

lemma length_filter_indices:
  "length (filter (\<lambda>j. P (xs ! j)) [0 ..< length xs]) = length (filter P xs)"
  by (subst (2) filter_nth_positions) simp

lemma count_le_outside:
  assumes "e \<notin> A"
  shows "count_list xs e \<le> length (filter (\<lambda>c. c \<notin> A) xs)"
  using assms by (induction xs) auto

lemma validate_bwt_none:
  assumes "length (filter (\<lambda>c. c \<notin> ALPHABET) string) = 0"
  shows "validate_bwt string line_no end_char =
           (if truthy line_no
            then ''Line no. '' @ str_int (the line_no) @ '' has no symbols.''
            else ''String has no symbols.'')"
proof -
  let ?ix = "filter (\<lambda>i. string ! i \<notin> ALPHABET) [0 ..< length string]"
  have "length ?ix = 0"
    using assms length_filter_indices [of "\<lambda>c. c \<notin> ALPHABET" string] by simp
  then have "?ix = []" by simp
  then show ?thesis by (simp add: validate_bwt_def Let_def)
qed

lemma validate_bwt_many:
  assumes "1 < length (filter (\<lambda>c. c \<notin> ALPHABET) string)"
  shows "validate_bwt string line_no end_char =
           (if truthy line_no
            then ''Line no. '' @ str_int (the line_no) @ '' has more than one symbols.''
            else ''String has more than one symbols.'')"
proof -
  let ?ix = "filter (\<lambda>i. string ! i \<notin> ALPHABET) [0 ..< length string]"
  have gt: "1 < length ?ix"
    using assms length_filter_indices [of "\<lambda>c. c \<notin> ALPHABET" string] by simp
  then have "?ix \<noteq> []" by auto
  with gt show ?thesis by (simp add: validate_bwt_def Let_def)
qed

lemma validate_bwt_one:
  assumes "length (filter (\<lambda>c. c \<notin> ALPHABET) string) = 1"
  shows "\<exists>i < length string. string ! i \<notin> ALPHABET \<and>
           validate_bwt string line_no end_char = string[i := end_char]"
proof -
  let ?ix = "filter (\<lambda>i. string ! i \<notin> ALPHABET) [0 ..< length string]"
  have "length ?ix = 1"
    using assms length_filter_indices [of "\<lambda>c. c \<notin> ALPHABET" string] by simp
  then obtain i where ix: "?ix = [i]"
    by (cases ?ix) simp_all
  then have "i \<in> set ?ix" by simp
  then have lt: "i < length string" and out: "string ! i \<notin> ALPHABET" by simp_all
  have "validate_bwt string line_no end_char = take i string @ [end_char] @ drop (i + 1) string"
    using ix by (simp add: validate_bwt_def Let_def py_slice_def)
  also have "\<dots> = string[i := end_char]"
    using lt by (simp add: upd_conv_take_nth_drop)
  finally show ?thesis using lt out by blast
qed

text \<open>
  Claim C7 as stated: a decode input in which the sentinel occurs zero times or more than
  once makes \<open>validate_bwt\<close> return an error message. \<open>validate_bwt\<close> counts the
  characters outside the alphabet, not the sentinel: \<open>"a#b"\<close> has no \<open>'$'\<close>, and the
  result is not one of the messages but \<open>"a$b"\<close>, the input with \<open>'#'\<close> replaced.
\<close>

theorem validate_bwt_replaces_counterexample:
  "count_list ''a#b'' CHR ''$'' = 0 \<and>
   validate_bwt ''a#b'' None CHR ''$'' = ''a$b'' \<and>
   ''a$b'' \<notin> sentinel_error_messages None"
  by code_simp

text \<open>
  Claim C7, amended (sentinel outside the alphabet, as \<open>'$'\<close> is): when the sentinel occurs
  more than once, \<open>validate_bwt\<close> returns one of its error messages; when it does not
  occur, \<open>validate_bwt\<close> returns an error message unless exactly one character of the
  input is outside the alphabet, and then it returns the input with that character
  replaced by the sentinel, a string that differs from the input.
\<close>

theorem validate_bwt_sentinel_count:
  assumes "end_char \<notin> ALPHABET"
  shows "(1 < count_list string end_char \<longrightarrow>
            validate_bwt string line_no end_char \<in> sentinel_error_messages line_no) \<and>
         (count_list string end_char = 0 \<longrightarrow>
            (if length (filter (\<lambda>c. c \<notin> ALPHABET) string) = 1
             then (\<exists>i < length string. string ! i \<notin> ALPHABET \<and>
                     validate_bwt string line_no end_char = string[i := end_char]) \<and>
                  validate_bwt string line_no end_char \<noteq> string
             else validate_bwt string line_no end_char \<in> sentinel_error_messages line_no))"
proof (intro conjI impI)
  assume "1 < count_list string end_char"
  with count_le_outside [OF assms, of string]
  have "1 < length (filter (\<lambda>c. c \<notin> ALPHABET) string)" by simp
  then show "validate_bwt string line_no end_char \<in> sentinel_error_messages line_no"
    by (simp add: validate_bwt_many sentinel_error_messages_def)
next
  assume zero: "count_list string end_char = 0"
  let ?k = "length (filter (\<lambda>c. c \<notin> ALPHABET) string)"
  let ?r = "validate_bwt string line_no end_char"
  consider "?k = 0" | "?k = 1" | "1 < ?k" by linarith
  then show "if ?k = 1
        then (\<exists>i < length string. string ! i \<notin> ALPHABET \<and> ?r = string[i := end_char]) \<and>
             ?r \<noteq> string
        else ?r \<in> sentinel_error_messages line_no"
  proof cases
    case 1
    then have "?r \<in> sentinel_error_messages line_no"
      by (simp add: validate_bwt_none sentinel_error_messages_def)
    with 1 show ?thesis by simp
  next
    case 2
    from validate_bwt_one [OF 2, of line_no end_char]
    obtain i where lt: "i < length string" and out: "string ! i \<notin> ALPHABET"
      and res: "?r = string[i := end_char]" by blast
    from zero have "end_char \<notin> set string" by (simp add: count_list_0_iff)
    with lt have "string ! i \<noteq> end_char" by (metis nth_mem)
    then have "string[i := end_char] ! i \<noteq> string ! i"
      using lt by simp
    then have "string[i := end_char] \<noteq> string" by metis
    with res lt out 2 show ?thesis by auto
  next
    case 3
    then have "?r \<in> sentinel_error_messages line_no"
      by (simp add: validate_bwt_many sentinel_error_messages_def)
    with 3 show ?thesis by simp
  qed
qed

theorem validate_bwt_sentinel_count_witness:
  "CHR ''$'' \<notin> ALPHABET \<and>
   1 < count_list ''a$bab$s'' CHR ''$'' \<and>
   validate_bwt ''a$bab$s'' (Some 10) CHR ''$'' \<in> sentinel_error_messages (Some 10) \<and>
   count_list ''a#b'' CHR ''$'' = 0 \<and>
   length (filter (\<lambda>c. c \<notin> ALPHABET) ''a#b'') = 1 \<and>
   validate_bwt ''a#b'' None CHR ''$'' \<noteq> ''a#b'' \<and>
   count_list ''ababs'' CHR ''$'' = 0 \<and>
   length (filter (\<lambda>c. c \<notin> ALPHABET) ''ababs'') \<noteq> 1 \<and>
   validate_bwt ''ababs'' None CHR ''$'' \<in> sentinel_error_messages None"
proof -
  have a: "CHR ''$'' \<notin> ALPHABET" by code_simp
  have b: "1 < count_list ''a$bab$s'' CHR ''$''" by code_simp
  have c: "count_list ''a#b'' CHR ''$'' = 0" by code_simp
  have d: "length (filter (\<lambda>c. c \<notin> ALPHABET) ''a#b'') = 1" by code_simp
  have e: "count_list ''ababs'' CHR ''$'' = 0" by code_simp
  have f: "length (filter (\<lambda>c. c \<notin> ALPHABET) ''ababs'') \<noteq> 1" by code_simp
  from validate_bwt_sentinel_count [OF a, of "''a$bab$s''" "Some 10"] b
  have 1: "validate_bwt ''a$bab$s'' (Some 10) CHR ''$'' \<in> sentinel_error_messages (Some 10)"
    by blast
  from validate_bwt_sentinel_count [OF a, of "''a#b''" None] c d
  have 2: "validate_bwt ''a#b'' None CHR ''$'' \<noteq> ''a#b''"
    by presburger
  from validate_bwt_sentinel_count [OF a, of "''ababs''" None] e f
  have 3: "validate_bwt ''ababs'' None CHR ''$'' \<in> sentinel_error_messages None"
    by presburger
  from a b c d e f 1 2 3 show ?thesis by blast
qed

section \<open>The last-first map\<close>

lemma queue_of_upd: "queue_of (d(c \<mapsto> q)) e = (if e = c then q else queue_of d e)"
  by (simp add: queue_of_def)

lemma occ_before_0: "occ_before (c # cs) 0 = 0"
  by (simp add: occ_before_def)

lemma occ_before_Suc:
  "occ_before (c # cs) (Suc k) = (if c = cs ! k then 1 else 0) + occ_before cs k"
  by (simp add: occ_before_def)

lemma pop_all_spec:
  assumes "\<forall>c. count_list cs c \<le> length (queue_of d c)"
  shows "pop_all d acc cs =
         Inr (acc @ map (\<lambda>k. queue_of d (cs ! k) ! occ_before cs k) [0 ..< length cs])"
  using assms
proof (induction cs arbitrary: d acc)
  case Nil
  then show ?case by simp
next
  case (Cons c cs)
  from Cons.prems have "1 \<le> length (queue_of d c)"
    by (metis count_list.simps(2) le_add2 le_trans)
  then obtain i q where dc: "d c = Some (i # q)"
    by (cases "d c"; cases "queue_of d c") (auto simp: queue_of_def)
  let ?d = "d(c \<mapsto> q)"
  have pre: "\<forall>e. count_list cs e \<le> length (queue_of ?d e)"
  proof
    fix e
    from Cons.prems have "count_list (c # cs) e \<le> length (queue_of d e)" by blast
    then show "count_list cs e \<le> length (queue_of ?d e)"
      using dc by (auto simp: queue_of_upd queue_of_def split: if_splits)
  qed
  have qc: "queue_of d c = i # q" using dc by (simp add: queue_of_def)
  have step: "queue_of d ((c # cs) ! Suc k) ! occ_before (c # cs) (Suc k) =
              queue_of ?d (cs ! k) ! occ_before cs k" for k
    by (simp add: occ_before_Suc queue_of_upd qc)
  have eq: "map (\<lambda>k. queue_of d ((c # cs) ! k) ! occ_before (c # cs) k) [0 ..< Suc (length cs)] =
        i # map (\<lambda>k. queue_of ?d (cs ! k) ! occ_before cs k) [0 ..< length cs]"
    unfolding map_upt_Suc
    using step by (simp add: occ_before_0 qc del: upt_Suc)
  have ih: "pop_all ?d (acc @ [i]) cs =
            Inr ((acc @ [i]) @ map (\<lambda>k. queue_of ?d (cs ! k) ! occ_before cs k) [0 ..< length cs])"
    by (rule Cons.IH [OF pre])
  have unf: "pop_all d acc (c # cs) = pop_all ?d (acc @ [i]) cs"
    using dc by simp
  show ?case
    by (simp only: unf ih length_Cons eq append_assoc append_Cons append_Nil)
qed

lemma occ_before_less_count:
  "k < length xs \<Longrightarrow> occ_before xs k < count_list xs (xs ! k)"
proof (induction xs arbitrary: k)
  case Nil
  then show ?case by simp
next
  case (Cons x xs)
  show ?case
  proof (cases k)
    case 0
    then show ?thesis by (simp add: occ_before_0)
  next
    case (Suc j)
    with Cons.prems have "j < length xs" by simp
    from Cons.IH [OF this] Suc show ?thesis
      by (simp add: occ_before_Suc)
  qed
qed

lemma no_position_before:
  assumes "c \<notin> set (take m xs)" and "m \<le> length xs"
  shows "filter (\<lambda>j. xs ! j = c) [0 ..< m] = []"
proof -
  have "xs ! j \<noteq> c" if "j < m" for j
  proof -
    from that assms(2) have "take m xs ! j \<in> set (take m xs)" by (intro nth_mem) simp
    with that assms(1) show ?thesis by auto
  qed
  then show ?thesis by (simp add: filter_empty_conv)
qed

lemma add_index_loop:
  "m \<le> length bwt \<Longrightarrow>
   foldl (add_index bwt) Map.empty [0 ..< m] =
     (\<lambda>c. if c \<in> set (take m bwt)
           then Some (map int (filter (\<lambda>j. bwt ! j = c) [0 ..< m])) else None)"
proof (induction m)
  case 0
  then show ?case by simp
next
  case (Suc m)
  then have lt: "m < length bwt" by simp
  have tk: "take (Suc m) bwt = take m bwt @ [bwt ! m]"
    using lt by (simp add: take_Suc_conv_app_nth)
  have d: "foldl (add_index bwt) Map.empty [0 ..< m] =
     (\<lambda>c. if c \<in> set (take m bwt)
           then Some (map int (filter (\<lambda>j. bwt ! j = c) [0 ..< m])) else None)"
    using Suc by simp
  have nil: "filter (\<lambda>j. bwt ! j = bwt ! m) [0 ..< m] = []" if "bwt ! m \<notin> set (take m bwt)"
    using that lt by (intro no_position_before) simp_all
  have "foldl (add_index bwt) Map.empty [0 ..< Suc m] =
        add_index bwt (foldl (add_index bwt) Map.empty [0 ..< m]) m"
    by simp
  also have "\<dots> = add_index bwt (\<lambda>c. if c \<in> set (take m bwt)
           then Some (map int (filter (\<lambda>j. bwt ! j = c) [0 ..< m])) else None) m"
    by (simp only: d)
  also have "\<dots> = (\<lambda>c. if c \<in> set (take (Suc m) bwt)
           then Some (map int (filter (\<lambda>j. bwt ! j = c) [0 ..< Suc m])) else None)"
    using nil by (auto simp: tk add_index_def Let_def fun_eq_iff)
  finally show ?case .
qed

lemma queue_of_add_index_loop:
  "queue_of (foldl (add_index bwt) Map.empty [0 ..< length bwt]) c =
     map int (positions bwt c)"
proof -
  have nil: "filter (\<lambda>j. bwt ! j = c) [0 ..< length bwt] = []" if "c \<notin> set bwt"
    using that by (auto simp: filter_empty_conv)
  show ?thesis
    using nil by (simp add: add_index_loop queue_of_def positions_def)
qed

lemma length_positions: "length (positions xs c) = count_list xs c"
proof -
  have "length (positions xs c) = length (filter (\<lambda>y. y = c) xs)"
    unfolding positions_def by (rule length_filter_indices [of "\<lambda>y. y = c" xs])
  also have "\<dots> = count_list xs c"
    by (induction xs) auto
  finally show ?thesis .
qed

lemma count_list_sort: "count_list (sort xs) c = count_list xs c"
proof -
  have "count (mset (sort xs)) c = count (mset xs) c" by simp
  then show ?thesis by (simp only: count_mset)
qed

lemma build_map_spec:
  "build_map bwt =
     Inr (map (\<lambda>k. int (positions bwt (sort bwt ! k) ! occ_before (sort bwt) k))
            [0 ..< length bwt])"
proof -
  let ?d = "foldl (add_index bwt) Map.empty [0 ..< length bwt]"
  have pre: "\<forall>c. count_list (sort bwt) c \<le> length (queue_of ?d c)"
    by (simp add: queue_of_add_index_loop length_positions count_list_sort)
  have occ: "occ_before (sort bwt) k < length (positions bwt (sort bwt ! k))"
    if "k < length bwt" for k
    using occ_before_less_count [of k "sort bwt"] that
    by (simp add: length_positions count_list_sort)
  have "map (\<lambda>k. queue_of ?d (sort bwt ! k) ! occ_before (sort bwt) k) [0 ..< length (sort bwt)] =
        map (\<lambda>k. int (positions bwt (sort bwt ! k) ! occ_before (sort bwt) k)) [0 ..< length bwt]"
    using occ by (simp add: queue_of_add_index_loop)
  then show ?thesis
    using pop_all_spec [OF pre, of "[]"]
    by (simp add: build_map_def sort_string_def Let_def)
qed

lemma occ_before_mono:
  assumes "k < k'" and "k' < length xs" and "xs ! k = xs ! k'"
  shows "occ_before xs k < occ_before xs k'"
proof -
  have k: "k < length (take k' xs)" using assms by simp
  have "take k' xs = take k (take k' xs) @ (take k' xs) ! k # drop (Suc k) (take k' xs)"
    by (rule id_take_nth_drop [OF k])
  also have "take k (take k' xs) = take k xs" using assms by (simp add: min_def)
  also have "(take k' xs) ! k = xs ! k" using assms by simp
  finally have split: "take k' xs = take k xs @ xs ! k # drop (Suc k) (take k' xs)" .
  have "occ_before xs k' = length (filter (\<lambda>y. y = xs ! k) (take k' xs))"
    by (simp add: occ_before_def assms(3))
  also have "\<dots> = occ_before xs k + 1 + length (filter (\<lambda>y. y = xs ! k) (drop (Suc k) (take k' xs)))"
    by (subst split) (simp add: occ_before_def)
  finally show ?thesis by simp
qed

lemma occ_before_inj:
  assumes "k < length xs" and "k' < length xs" and "xs ! k = xs ! k'"
    and "occ_before xs k = occ_before xs k'"
  shows "k = k'"
proof (rule ccontr)
  assume "k \<noteq> k'"
  then consider "k < k'" | "k' < k" by linarith
  then show False
  proof cases
    case 1
    from occ_before_mono [OF 1 assms(2) assms(3)] assms(4) show False by simp
  next
    case 2
    from occ_before_mono [OF 2 assms(1) assms(3) [symmetric]] assms(4) show False by simp
  qed
qed

lemma positions_distinct: "distinct (positions xs c)"
  by (simp add: positions_def)

lemma positions_mem: "j \<in> set (positions xs c) \<longleftrightarrow> j < length xs \<and> xs ! j = c"
  by (auto simp: positions_def)

lemma selected_position:
  assumes "k < length xs"
  shows "positions xs (sort xs ! k) ! occ_before (sort xs) k \<in> set (positions xs (sort xs ! k))"
proof -
  have "occ_before (sort xs) k < length (positions xs (sort xs ! k))"
    using occ_before_less_count [of k "sort xs"] assms
    by (simp add: length_positions count_list_sort)
  then show ?thesis by (rule nth_mem)
qed

lemma selected_position_inj:
  assumes "k < length xs" and "k' < length xs"
    and "positions xs (sort xs ! k) ! occ_before (sort xs) k =
         positions xs (sort xs ! k') ! occ_before (sort xs) k'"
  shows "k = k'"
proof -
  let ?F = "sort xs"
  let ?s = "\<lambda>k. positions xs (?F ! k) ! occ_before ?F k"
  from selected_position [OF assms(1)] have a: "xs ! ?s k = ?F ! k"
    by (simp add: positions_mem)
  from selected_position [OF assms(2)] have b: "xs ! ?s k' = ?F ! k'"
    by (simp add: positions_mem)
  from a b assms(3) have same: "?F ! k = ?F ! k'" by simp
  have lk: "occ_before ?F k < length (positions xs (?F ! k))"
    using occ_before_less_count [of k ?F] assms(1)
    by (simp add: length_positions count_list_sort)
  have lk': "occ_before ?F k' < length (positions xs (?F ! k))"
    using occ_before_less_count [of k' ?F] assms(2) same
    by (simp add: length_positions count_list_sort)
  have "occ_before ?F k = occ_before ?F k'"
    using assms(3) same lk lk' positions_distinct [of xs "?F ! k"]
    by (simp add: nth_eq_iff_index_eq)
  with same assms(1,2) show ?thesis
    by (intro occ_before_inj [of k ?F k']) simp_all
qed

text \<open>
  Claim C4 (permutation invariant). For every string \<open>B\<close> of length \<open>n\<close>, valid BWT or
  not, \<open>build_map B\<close> returns, without raising, a tuple of length \<open>n\<close> in which every index
  of \<open>[0, n)\<close> appears exactly once.
\<close>

theorem build_map_permutation:
  "\<exists>lf_map. build_map B = Inr lf_map \<and> length lf_map = length B \<and>
     distinct lf_map \<and> set lf_map = {0 ..< int (length B)}"
proof -
  let ?s = "\<lambda>k. positions B (sort B ! k) ! occ_before (sort B) k"
  let ?m = "map (\<lambda>k. int (?s k)) [0 ..< length B]"
  have bm: "build_map B = Inr ?m" by (rule build_map_spec)
  have len: "length ?m = length B" by simp
  have inj: "inj_on (\<lambda>k. int (?s k)) (set [0 ..< length B])"
    by (rule inj_onI) (auto dest: selected_position_inj)
  have dist: "distinct ?m"
    by (simp only: distinct_map distinct_upt inj simp_thms)
  have sub: "set ?m \<subseteq> {0 ..< int (length B)}"
  proof
    fix x assume "x \<in> set ?m"
    then obtain k where k: "k < length B" and x: "x = int (?s k)" by auto
    from selected_position [OF k] have "?s k < length B" by (simp add: positions_mem)
    with x show "x \<in> {0 ..< int (length B)}" by simp
  qed
  have "card (set ?m) = length B"
    using distinct_card [OF dist] len by simp
  then have "card (set ?m) = card {0 ..< int (length B)}" by simp
  with sub have "set ?m = {0 ..< int (length B)}"
    by (intro card_subset_eq) simp_all
  with bm len dist show ?thesis by blast
qed

section \<open>The sorted rotation matrix\<close>

lemma length_rotations_of: "length (rotations_of t) = length t"
  by (simp add: rotations_of_def)

lemma set_rotations_of: "set (rotations_of t) = (\<lambda>i. rotate i t) ` {0 ..< length t}"
  by (simp add: rotations_of_def)

lemma rotate_in_rotations:
  assumes "t \<noteq> []"
  shows "rotate k t \<in> set (rotations_of t)"
proof -
  have "rotate k t = rotate (k mod length t) t" by (rule rotate_conv_mod)
  moreover have "k mod length t < length t" using assms by simp
  ultimately show ?thesis unfolding set_rotations_of by (metis atLeastLessThan_iff imageI zero_le)
qed

lemma rotation_length: "r \<in> set (rotations_of t) \<Longrightarrow> length r = length t"
  by (auto simp: set_rotations_of)

lemma last_rotate_inside:
  assumes "0 < k" and "k < length t"
  shows "last (rotate k t) \<in> set (butlast t)"
proof -
  have tk: "take k t \<noteq> []" using assms by auto
  have "rotate k t = drop k t @ take k t"
    using assms by (simp add: rotate_drop_take)
  then have "last (rotate k t) = last (take k t)" using tk by simp
  also have "\<dots> = take k t ! (k - 1)"
    using tk assms by (simp add: last_conv_nth min_def)
  also have "\<dots> = t ! (k - 1)" using assms by simp
  also have "\<dots> = butlast t ! (k - 1)"
    using assms by (simp add: nth_butlast)
  finally show ?thesis using assms by simp
qed

lemma rotate_last_sentinel:
  assumes "sentinel_terminated t" and "k < length t" and "last (rotate k t) = last t"
  shows "k = 0"
proof (rule ccontr)
  assume "k \<noteq> 0"
  then have "last (rotate k t) \<in> set (butlast t)"
    using assms(2) by (intro last_rotate_inside) simp_all
  with assms(1,3) show False by (simp add: sentinel_terminated_def)
qed

lemma rotations_inj:
  assumes "sentinel_terminated t"
  shows "inj_on (\<lambda>i. rotate i t) {0 ..< length t}"
proof (rule inj_onI)
  fix i j
  assume i: "i \<in> {0 ..< length t}" and j: "j \<in> {0 ..< length t}"
    and eq: "rotate i t = rotate j t"
  have aux: "a = b" if "a \<le> b" "b < length t" "rotate a t = rotate b t" for a b
  proof -
    have "rotate (length t - b + a) t = rotate (length t - b) (rotate a t)"
      by (simp only: rotate_rotate)
    also have "\<dots> = rotate (length t - b) (rotate b t)"
      by (simp only: that(3))
    also have "\<dots> = rotate (length t - b + b) t"
      by (simp only: rotate_rotate)
    also have "length t - b + b = length t"
      using that(2) by simp
    also have "rotate (length t) t = t" by simp
    finally have e: "rotate (length t - b + a) t = t" .
    show ?thesis
    proof (cases "a = b")
      case True then show ?thesis .
    next
      case False
      with that have "length t - b + a < length t" by simp
      with e assms have "length t - b + a = 0"
        by (intro rotate_last_sentinel [of t]) simp_all
      with that show ?thesis by simp
    qed
  qed
  show "i = j"
  proof (cases "i \<le> j")
    case True
    with aux [of i j] j eq show ?thesis by simp
  next
    case False
    with aux [of j i] i eq show ?thesis by simp
  qed
qed

lemma distinct_rotations_of:
  "sentinel_terminated t \<Longrightarrow> distinct (rotations_of t)"
  by (simp add: rotations_of_def distinct_map rotations_inj)

lemma snoc_less_mono:
  fixes X Y :: "('a :: linorder) list"
  shows "length X = length Y \<Longrightarrow> X < Y \<Longrightarrow> X @ [c] < Y @ [c]"
  by (induction X Y rule: list_induct2) auto

lemma rotate1_less_mono:
  fixes x y :: "('a :: linorder) list"
  assumes "length x = length y" and "x \<noteq> []" and "hd x = hd y" and "x < y"
  shows "rotate1 x < rotate1 y"
proof -
  from assms obtain c X Y where x: "x = c # X" and y: "y = c # Y"
    by (cases x; cases y) auto
  with assms have "length X = length Y" "X < Y" by simp_all
  then have "X @ [c] < Y @ [c]" by (rule snoc_less_mono)
  with x y show ?thesis by simp
qed

lemma sorted_matrix_props:
  fixes t :: "('a :: linorder) list"
  shows "sorted (sorted_matrix t)"
    and "set (sorted_matrix t) = set (rotations_of t)"
    and "length (sorted_matrix t) = length t"
    and "sentinel_terminated t \<Longrightarrow> distinct (sorted_matrix t)"
  by (simp_all add: sorted_matrix_def length_rotations_of distinct_rotations_of)

lemma last_rotate1: "r \<noteq> [] \<Longrightarrow> last (rotate1 r) = hd r"
  by (cases r) simp_all

lemma matrix_row:
  fixes t :: "('a :: linorder) list"
  assumes "r \<in> set (sorted_matrix t)"
  shows "length r = length t" and "\<exists>i < length t. r = rotate i t"
  using assms by (auto simp: sorted_matrix_props(2) set_rotations_of)

lemma matrix_row_nonempty:
  fixes t :: "('a :: linorder) list"
  assumes "r \<in> set (sorted_matrix t)"
  shows "r \<noteq> []" and "t \<noteq> []"
  using matrix_row [OF assms] by auto

lemma rotate_in_matrix:
  fixes t :: "('a :: linorder) list"
  shows "t \<noteq> [] \<Longrightarrow> rotate k t \<in> set (sorted_matrix t)"
  by (simp add: sorted_matrix_props(2) rotate_in_rotations)

lemma matrix_strict:
  fixes t :: "('a :: linorder) list"
  assumes "sentinel_terminated t"
  shows "sorted_wrt (<) (sorted_matrix t)"
  using assms by (simp add: strict_sorted_iff sorted_matrix_props)

lemma lf_filter:
  fixes t :: "('a :: linorder) list"
  assumes st: "sentinel_terminated t"
  shows "map rotate1 (filter (\<lambda>r. hd r = c) (sorted_matrix t)) =
         filter (\<lambda>r. last r = c) (sorted_matrix t)"
proof -
  let ?R = "sorted_matrix t"
  let ?A = "filter (\<lambda>r. hd r = c) ?R"
  let ?B = "filter (\<lambda>r. last r = c) ?R"
  have sA: "sorted_wrt (<) ?A" and sB: "sorted_wrt (<) ?B"
    using matrix_strict [OF st] by (simp_all add: sorted_wrt_filter)
  have "sorted_wrt (\<lambda>x y. rotate1 x < rotate1 y) ?A"
  proof (rule sorted_wrt_mono_rel [OF _ sA])
    fix x y
    assume x: "x \<in> set ?A" and y: "y \<in> set ?A" and lt: "x < y"
    from x have xr: "x \<in> set ?R" and hx: "hd x = c" by simp_all
    from y have yr: "y \<in> set ?R" and hy: "hd y = c" by simp_all
    have "length x = length y"
      using matrix_row(1) [OF xr] matrix_row(1) [OF yr] by simp
    moreover have "x \<noteq> []" using matrix_row_nonempty(1) [OF xr] .
    moreover have "hd x = hd y" using hx hy by simp
    ultimately show "rotate1 x < rotate1 y" using lt by (rule rotate1_less_mono)
  qed
  then have sM: "sorted_wrt (<) (map rotate1 ?A)"
    by (simp add: sorted_wrt_map)
  have sets: "set (map rotate1 ?A) = set ?B"
  proof (intro set_eqI iffI)
    fix x assume "x \<in> set (map rotate1 ?A)"
    then obtain r where r: "r \<in> set ?R" "hd r = c" and x: "x = rotate1 r" by auto
    from matrix_row(2) [OF r(1)] obtain i where ri: "r = rotate i t" by blast
    have ne: "r \<noteq> []" "t \<noteq> []" using matrix_row_nonempty [OF r(1)] by simp_all
    have xs: "x = rotate (Suc i) t" using x ri by simp
    have "rotate (Suc i) t \<in> set ?R" using ne(2) by (rule rotate_in_matrix)
    with xs have "x \<in> set ?R" by (simp only:)
    moreover have "last x = c" using x r(2) ne(1) by (simp add: last_rotate1)
    ultimately show "x \<in> set ?B" by simp
  next
    fix x assume "x \<in> set ?B"
    then have xr: "x \<in> set ?R" and lx: "last x = c" by simp_all
    from matrix_row(2) [OF xr] obtain j where j: "j < length t" "x = rotate j t" by blast
    have ne: "t \<noteq> []" using matrix_row_nonempty(2) [OF xr] .
    let ?r = "rotate (j + (length t - 1)) t"
    have rin: "?r \<in> set ?R" using ne by (rule rotate_in_matrix)
    then have rne: "?r \<noteq> []" by (rule matrix_row_nonempty(1))
    have "rotate1 ?r = rotate (Suc (j + (length t - 1))) t" by simp
    also have "Suc (j + (length t - 1)) = j + length t" using ne by simp
    also have "rotate (j + length t) t = rotate j (rotate (length t) t)"
      by (simp only: rotate_rotate)
    also have "\<dots> = x" using j(2) by simp
    finally have rx: "rotate1 ?r = x" .
    have "hd ?r = last (rotate1 ?r)" using last_rotate1 [OF rne] by (rule sym)
    with rx lx have "hd ?r = c" by simp
    with rin have "?r \<in> set ?A" by simp
    then have "rotate1 ?r \<in> set (map rotate1 ?A)" by (simp only: set_map image_eqI)
    with rx show "x \<in> set (map rotate1 ?A)" by simp
  qed
  from sM sB sets show ?thesis
    by (intro sorted_distinct_set_unique) (simp_all only: strict_sorted_iff)
qed

lemma sorted_map_hd:
  fixes xs :: "('a :: linorder) list list"
  assumes "sorted xs" and "\<forall>x \<in> set xs. x \<noteq> []"
  shows "sorted (map hd xs)"
  using assms
proof (induction xs)
  case Nil
  then show ?case by simp
next
  case (Cons x xs)
  have "hd x \<le> hd y" if "y \<in> set xs" for y
  proof -
    from Cons.prems that have "x \<le> y" "x \<noteq> []" "y \<noteq> []" by auto
    then show ?thesis by (cases x; cases y) auto
  qed
  with Cons show ?case by simp
qed

lemma map_hd_rotations: "map hd (rotations_of t) = t"
proof (cases "t = []")
  case True
  then show ?thesis by (simp add: rotations_of_def)
next
  case False
  then have "map hd (rotations_of t) = map (nth t) [0 ..< length t]"
    by (simp add: rotations_of_def hd_rotate_conv_nth)
  then show ?thesis by (simp add: map_nth)
qed

lemma last_rotate_nth:
  assumes "i < length t"
  shows "last (rotate i t) = t ! ((i + (length t - 1)) mod length t)"
proof -
  from assms have ne: "rotate i t \<noteq> []" by auto
  have "last (rotate i t) = rotate i t ! (length t - 1)"
    using ne by (simp add: last_conv_nth)
  also have "\<dots> = t ! ((i + (length t - 1)) mod length t)"
    using assms by (intro nth_rotate) simp
  finally show ?thesis .
qed

lemma map_last_rotations: "map last (rotations_of t) = rotate (length t - 1) t"
proof (rule nth_equalityI)
  show "length (map last (rotations_of t)) = length (rotate (length t - 1) t)"
    by (simp add: rotations_of_def)
next
  fix i assume "i < length (map last (rotations_of t))"
  then have i: "i < length t" by (simp add: rotations_of_def)
  have "map last (rotations_of t) ! i = last (rotate i t)"
    using i by (simp add: rotations_of_def)
  also have "\<dots> = t ! ((i + (length t - 1)) mod length t)"
    by (rule last_rotate_nth [OF i])
  also have "\<dots> = rotate (length t - 1) t ! i"
    using i by (simp add: nth_rotate add.commute)
  finally show "map last (rotations_of t) ! i = rotate (length t - 1) t ! i" .
qed

lemma mset_rotate_eq: "mset (rotate n xs) = mset xs"
proof -
  let ?k = "n mod length xs"
  have "mset (rotate n xs) = mset (drop ?k xs) + mset (take ?k xs)"
    by (simp add: rotate_drop_take)
  also have "\<dots> = mset (take ?k xs) + mset (drop ?k xs)"
    by (rule add.commute)
  also have "\<dots> = mset (take ?k xs @ drop ?k xs)"
    by (simp only: mset_append)
  also have "\<dots> = mset xs"
    by (simp only: append_take_drop_id)
  finally show ?thesis .
qed

lemma first_column:
  fixes t :: "('a :: linorder) list"
  shows "sort (map last (sorted_matrix t)) = map hd (sorted_matrix t)"
proof (rule properties_for_sort)
  have "mset (map hd (sorted_matrix t)) = mset (map hd (rotations_of t))"
    by (simp add: sorted_matrix_def)
  also have "\<dots> = mset (map last (rotations_of t))"
    by (simp only: map_hd_rotations map_last_rotations mset_rotate_eq)
  also have "\<dots> = mset (map last (sorted_matrix t))"
    by (simp add: sorted_matrix_def)
  finally show "mset (map hd (sorted_matrix t)) = mset (map last (sorted_matrix t))" .
next
  show "sorted (map hd (sorted_matrix t))"
    by (rule sorted_map_hd) (auto simp: sorted_matrix_props(1) dest: matrix_row_nonempty(1))
qed

section \<open>The inversion walk and the round trip\<close>

lemma filter_nth_rank:
  assumes "k < length xs" and "P (xs ! k)"
  shows "filter P xs ! length (filter P (take k xs)) = xs ! k"
    and "length (filter P (take k xs)) < length (filter P xs)"
proof -
  have "xs = take k xs @ xs ! k # drop (Suc k) xs"
    by (rule id_take_nth_drop [OF assms(1)])
  then have "filter P xs = filter P (take k xs @ xs ! k # drop (Suc k) xs)"
    by simp
  then have split: "filter P xs = filter P (take k xs) @ xs ! k # filter P (drop (Suc k) xs)"
    using assms(2) by simp
  show "filter P xs ! length (filter P (take k xs)) = xs ! k"
    by (subst split) (simp only: nth_append_length)
  show "length (filter P (take k xs)) < length (filter P xs)"
    using arg_cong [OF split, of length] by simp
qed

lemma occ_before_map:
  assumes "k < length xs"
  shows "occ_before (map f xs) k = length (filter (\<lambda>r. f r = f (xs ! k)) (take k xs))"
proof -
  have "occ_before (map f xs) k =
        length (filter (\<lambda>y. y = f (xs ! k)) (map f (take k xs)))"
    using assms by (simp add: occ_before_def take_map)
  also have "\<dots> = length (map f (filter ((\<lambda>y. y = f (xs ! k)) \<circ> f) (take k xs)))"
    by (simp only: filter_map)
  also have "\<dots> = length (filter (\<lambda>r. f r = f (xs ! k)) (take k xs))"
    by (simp add: comp_def)
  finally show ?thesis .
qed

lemma positions_map:
  "positions (map f xs) c = filter (\<lambda>j. f (xs ! j) = c) [0 ..< length xs]"
  unfolding positions_def by (rule filter_cong) simp_all

lemma lf_step:
  fixes t :: "('a :: linorder) list"
  assumes st: "sentinel_terminated t" and k: "k < length t"
  defines "R \<equiv> sorted_matrix t"
  defines "p \<equiv> positions (map last R) (map hd R ! k) ! occ_before (map hd R) k"
  shows "p < length t" and "R ! p = rotate1 (R ! k)"
proof -
  let ?c = "hd (R ! k)"
  let ?A = "filter (\<lambda>r. hd r = ?c) R"
  let ?B = "filter (\<lambda>r. last r = ?c) R"
  let ?ps = "positions (map last R) ?c"
  let ?o = "length (filter (\<lambda>r. hd r = ?c) (take k R))"
  have lenR: "length R = length t" by (simp add: R_def sorted_matrix_props(3))
  have kR: "k < length R" using k lenR by simp
  have AB: "map rotate1 ?A = ?B" unfolding R_def by (rule lf_filter [OF st])
  have occ: "occ_before (map hd R) k = ?o"
    by (rule occ_before_map [OF kR])
  have p: "p = ?ps ! ?o" using kR by (simp add: p_def occ)
  have rank: "?A ! ?o = R ! k" "?o < length ?A"
    using filter_nth_rank [of k R "\<lambda>r. hd r = ?c"] kR by simp_all
  have B: "?B = map (nth R) ?ps"
    by (simp only: positions_map filter_nth_positions [of "\<lambda>r. last r = ?c" R])
  have "length ?ps = length ?B" by (subst B) simp
  also have "\<dots> = length ?A" by (subst AB [symmetric]) simp
  finally have lps: "?o < length ?ps" using rank(2) by simp
  then have "?ps ! ?o \<in> set ?ps" by (rule nth_mem)
  then show "p < length t" using lenR by (simp add: p positions_mem)
  have "R ! p = ?B ! ?o" using lps by (simp add: p B)
  also have "\<dots> = map rotate1 ?A ! ?o" by (simp only: AB)
  also have "\<dots> = rotate1 (?A ! ?o)" using rank(2) by simp
  also have "\<dots> = rotate1 (R ! k)" by (simp only: rank(1))
  finally show "R ! p = rotate1 (R ! k)" .
qed

lemma getitem_nat: "k < length xs \<Longrightarrow> py_getitem xs (int k) = Inr (xs ! k)"
  by (simp add: py_getitem_def)

lemma concat_singletons: "concat (map (\<lambda>x. [f x]) xs) = map f xs"
  by (induction xs) simp_all

lemma index_found:
  assumes "c \<in> set xs"
  shows "length (takeWhile (\<lambda>x. x \<noteq> c) xs) < length xs"
    and "xs ! length (takeWhile (\<lambda>x. x \<noteq> c) xs) = c"
proof -
  show lt: "length (takeWhile (\<lambda>x. x \<noteq> c) xs) < length xs"
    using assms by (induction xs) auto
  from nth_length_takeWhile [OF lt] show "xs ! length (takeWhile (\<lambda>x. x \<noteq> c) xs) = c"
    by simp
qed

lemma walk_matrix:
  fixes t :: string
  assumes st: "sentinel_terminated t"
  defines "R \<equiv> sorted_matrix t"
  defines "L \<equiv> map last R"
  defines "lf \<equiv> map (\<lambda>k. int (positions L (sort L ! k) ! occ_before (sort L) k))
                   [0 ..< length L]"
  assumes i_le: "i \<le> length t" and x_lt: "x < length t" and x_row: "R ! x = rotate i t"
    and text_len: "length out = length t"
  shows "walk L lf (int x) out [i ..< length t] =
         Inr (take i out @ map (\<lambda>j. [t ! j]) [i ..< length t])"
  using i_le x_lt x_row text_len
proof (induction "length t - i" arbitrary: i x out)
  case 0
  then show ?case by simp
next
  case (Suc d)
  let ?p = "positions L (sort L ! x) ! occ_before (sort L) x"
  have i: "i < length t" using Suc.hyps(2) by simp
  have ne: "t \<noteq> []" using i by auto
  have lenL: "length L = length t"
    by (simp add: L_def R_def sorted_matrix_props(3))
  have p_lt: "?p < length t"
    unfolding L_def R_def first_column using lf_step(1) [OF st Suc.prems(2)] .
  have p_row: "R ! ?p = rotate1 (R ! x)"
    unfolding L_def R_def first_column using lf_step(2) [OF st Suc.prems(2)] .
  have g1: "py_getitem lf (int x) = Inr (int ?p)"
  proof -
    have "x < length lf" using Suc.prems(2) lenL by (simp add: lf_def)
    then have "py_getitem lf (int x) = Inr (lf ! x)" by (rule getitem_nat)
    also have "lf ! x = int ?p"
      using Suc.prems(2) lenL by (simp add: lf_def)
    finally show ?thesis .
  qed
  have rne: "R ! x \<noteq> []" using Suc.prems(3) ne by simp
  have "L ! ?p = last (R ! ?p)"
    using p_lt lenL by (simp add: L_def)
  also have "\<dots> = hd (R ! x)"
    by (simp only: p_row last_rotate1 [OF rne])
  also have "\<dots> = t ! i"
    using i ne by (simp add: Suc.prems(3) hd_rotate_conv_nth)
  finally have Lp: "L ! ?p = t ! i" .
  have g2: "py_getitem L (int ?p) = Inr (t ! i)"
    using getitem_nat [of ?p L] p_lt lenL Lp by simp
  have upt: "[i ..< length t] = i # [Suc i ..< length t]"
    using i by (rule upt_conv_Cons)
  have it: "i < length out" using i Suc.prems(4) by simp
  have step: "walk L lf (int x) out [i ..< length t] =
              walk L lf (int ?p) (out[i := [t ! i]]) [Suc i ..< length t]"
    by (simp only: upt walk.simps g1 g2 it sum.case if_True)
  have row': "R ! ?p = rotate (Suc i) t"
    by (simp add: p_row Suc.prems(3))
  have d: "d = length t - Suc i" using Suc.hyps(2) by simp
  have ih: "walk L lf (int ?p) (out[i := [t ! i]]) [Suc i ..< length t] =
            Inr (take (Suc i) (out[i := [t ! i]]) @ map (\<lambda>j. [t ! j]) [Suc i ..< length t])"
    using i p_lt row' Suc.prems(4) by (intro Suc.hyps(1) [OF d]) simp_all
  have tk: "take (Suc i) (out[i := [t ! i]]) = take i out @ [[t ! i]]"
    using it by (simp add: take_Suc_conv_app_nth)
  show ?case
    by (simp only: step ih tk) (simp add: upt)
qed

lemma bw_transform_matrix:
  "bw_transform text end_char = Inr (map last (sorted_matrix (text @ [end_char])))"
proof -
  let ?t = "text @ [end_char]"
  have "\<forall>r \<in> set (sort (rotations_of ?t)). r \<noteq> []"
    by (auto simp: set_rotations_of)
  then show ?thesis
    by (simp add: bw_transform_def Let_def make_rotations_rotate sort_rotations_def
        sorted_rotations_to_bwt_def sorted_matrix_def last_chars_map)
qed

lemma sentinel_row:
  fixes t :: "('a :: linorder) list"
  assumes st: "sentinel_terminated t"
  defines "L \<equiv> map last (sorted_matrix t)"
  defines "x \<equiv> length (takeWhile (\<lambda>c. c \<noteq> last t) L)"
  shows "last t \<in> set L" and "x < length t" and "sorted_matrix t ! x = rotate 0 t"
proof -
  have ne: "t \<noteq> []" using st by (simp add: sentinel_terminated_def)
  have "rotate 0 t \<in> set (sorted_matrix t)" using ne by (rule rotate_in_matrix)
  then have "last (rotate 0 t) \<in> set L" unfolding L_def by (simp only: set_map image_eqI)
  then show mem: "last t \<in> set L" by simp
  have lenL: "length L = length t" by (simp add: L_def sorted_matrix_props(3))
  from index_found [OF mem] have xl: "x < length L" and lx: "L ! x = last t"
    by (simp_all add: x_def)
  show xt: "x < length t" using xl lenL by simp
  have "sorted_matrix t ! x \<in> set (sorted_matrix t)"
    using xt by (simp add: sorted_matrix_props(3))
  from matrix_row(2) [OF this] obtain i where i: "i < length t"
    and row: "sorted_matrix t ! x = rotate i t" by blast
  have "last (rotate i t) = last t"
    using lx xl row by (simp add: L_def)
  with st i have "i = 0" by (rule rotate_last_sentinel)
  with row show "sorted_matrix t ! x = rotate 0 t" by simp
qed

lemma invert_matrix:
  fixes t :: string
  assumes st: "sentinel_terminated t" and dollar: "last t = CHR ''$''"
  shows "invert_bwt_via_map (map last (sorted_matrix t)) end_char = Inr (butlast t)"
proof -
  let ?R = "sorted_matrix t"
  let ?L = "map last ?R"
  let ?lf = "map (\<lambda>k. int (positions ?L (sort ?L ! k) ! occ_before (sort ?L) k))
               [0 ..< length ?L]"
  let ?x = "length (takeWhile (\<lambda>c. c \<noteq> CHR ''$'') ?L)"
  have lenL: "length ?L = length t" by (simp add: sorted_matrix_props(3))
  have bm: "build_map ?L = Inr ?lf" by (rule build_map_spec)
  from sentinel_row [OF st] dollar
  have mem: "CHR ''$'' \<in> set ?L" and xt: "?x < length t" and row: "?R ! ?x = rotate 0 t"
    by simp_all
  have idx: "str_index ?L CHR ''$'' = Inr (int ?x)"
    using mem by (simp only: str_index_def if_True)
  have "walk ?L ?lf (int ?x) (map (\<lambda>_. []) ?L) [0 ..< length t] =
        Inr (take 0 (map (\<lambda>_. []) ?L) @ map (\<lambda>j. [t ! j]) [0 ..< length t])"
    using xt row lenL by (intro walk_matrix [OF st]) simp_all
  then have wk: "walk ?L ?lf (int ?x) (map (\<lambda>_. []) ?L) [0 ..< length ?L] =
        Inr (map (\<lambda>j. [t ! j]) [0 ..< length t])"
    by (simp only: lenL take_0 append_Nil)
  have cc: "concat (map (\<lambda>j. [t ! j]) [0 ..< length t]) = t"
    by (simp only: concat_singletons map_nth)
  have tum: "text_using_map ?L ?lf CHR ''$'' = Inr t"
    by (simp only: text_using_map_def idx wk cc sum.case)
  show ?thesis
    by (simp only: invert_bwt_via_map_def bm tum sum.case)
qed

lemma round_trip_default:
  assumes "CHR ''$'' \<notin> set T"
  shows "bw_transform T CHR ''$'' = Inr (map last (sorted_matrix (T @ ''$''))) \<and>
         invert_bwt_via_map (map last (sorted_matrix (T @ ''$''))) end_char = Inr T"
proof -
  have st: "sentinel_terminated (T @ ''$'')"
    using assms by (simp add: sentinel_terminated_def)
  from invert_matrix [OF st, of end_char] show ?thesis
    by (simp add: bw_transform_matrix)
qed

lemma sentinel_not_in_alphabet: "CHR ''$'' \<notin> ALPHABET"
  by code_simp

text \<open>
  Claim C10 (round trip with the default sentinel). For every text \<open>T\<close> over the
  permitted alphabet, which excludes \<open>'$'\<close>, the transform with \<open>'$'\<close> succeeds and
  inverting it gives \<open>T\<close> back; texts with spaces, which sort before \<open>'$'\<close>, are included.
\<close>

theorem round_trip_default_sentinel:
  assumes "set T \<subseteq> ALPHABET"
  shows "\<exists>B. bw_transform T CHR ''$'' = Inr B \<and> invert_bwt_via_map B CHR ''$'' = Inr T"
proof -
  from assms sentinel_not_in_alphabet have "CHR ''$'' \<notin> set T" by blast
  from round_trip_default [OF this, of "CHR ''$''"] show ?thesis by blast
qed

theorem round_trip_default_sentinel_witness:
  "set ''a b'' \<subseteq> ALPHABET \<and>
   (\<exists>B. bw_transform ''a b'' CHR ''$'' = Inr B \<and> invert_bwt_via_map B CHR ''$'' = Inr ''a b'')"
proof -
  have a: "set ''a b'' \<subseteq> ALPHABET" by code_simp
  from round_trip_default_sentinel [OF a] a show ?thesis by blast
qed

section \<open>What the inversion does, whatever \<open>end_char\<close> is\<close>

text \<open>
  The transform is one character longer than the text for every sentinel. The
  inversion depends on \<open>'$'\<close> alone: it raises \<open>ValueError\<close> exactly when \<open>'$'\<close> is absent
  from its input, and otherwise returns a string one character shorter than the input.
\<close>

lemma bw_transform_length:
  "\<exists>B. bw_transform T s = Inr B \<and> length B = length T + 1"
  by (simp add: bw_transform_matrix sorted_matrix_props(3))

lemma build_map_range:
  "\<exists>lf_map. build_map B = Inr lf_map \<and> length lf_map = length B \<and>
     (\<forall>k < length B. 0 \<le> lf_map ! k \<and> lf_map ! k < int (length B))"
proof -
  let ?s = "\<lambda>k. positions B (sort B ! k) ! occ_before (sort B) k"
  let ?m = "map (\<lambda>k. int (?s k)) [0 ..< length B]"
  have "?s k < length B" if "k < length B" for k
    using selected_position [OF that] by (simp add: positions_mem)
  then have "\<forall>k < length B. 0 \<le> ?m ! k \<and> ?m ! k < int (length B)" by simp
  moreover have "build_map B = Inr ?m" by (rule build_map_spec)
  moreover have "length ?m = length B" by simp
  ultimately show ?thesis by blast
qed

lemma getitem_in_range:
  assumes "0 \<le> x" and "x < int (length xs)"
  shows "py_getitem xs x = Inr (xs ! nat x)"
  using assms by (simp add: py_getitem_def)

lemma walk_total:
  assumes lf: "\<forall>k < n. 0 \<le> lf_map ! k \<and> lf_map ! k < int n"
    and len_lf: "length lf_map = n" and len_bwt: "length bwt = n"
  shows "0 \<le> x \<Longrightarrow> x < int n \<Longrightarrow> length out = n \<Longrightarrow> \<forall>i \<in> set idx. i < n \<Longrightarrow>
         \<exists>out'. walk bwt lf_map x out idx = Inr out' \<and> length out' = n \<and>
            (\<forall>j < n. j \<in> set idx \<longrightarrow> length (out' ! j) = 1) \<and>
            (\<forall>j < n. j \<notin> set idx \<longrightarrow> out' ! j = out ! j)"
proof (induction idx arbitrary: x out)
  case Nil
  then show ?case by simp
next
  case (Cons i idx)
  let ?x' = "lf_map ! nat x"
  let ?c = "bwt ! nat ?x'"
  have nx: "nat x < n" using Cons.prems(1,2) by simp
  with lf have x': "0 \<le> ?x'" "?x' < int n" by simp_all
  have g1: "py_getitem lf_map x = Inr ?x'"
    using Cons.prems(1,2) len_lf by (intro getitem_in_range) simp_all
  have g2: "py_getitem bwt ?x' = Inr ?c"
    using x' len_bwt by (intro getitem_in_range) simp_all
  have i: "i < n" using Cons.prems(4) by simp
  then have it: "i < length out" using Cons.prems(3) by simp
  have step: "walk bwt lf_map x out (i # idx) = walk bwt lf_map ?x' (out[i := [?c]]) idx"
    by (simp only: walk.simps g1 g2 it sum.case if_True)
  have "\<exists>out'. walk bwt lf_map ?x' (out[i := [?c]]) idx = Inr out' \<and> length out' = n \<and>
            (\<forall>j < n. j \<in> set idx \<longrightarrow> length (out' ! j) = 1) \<and>
            (\<forall>j < n. j \<notin> set idx \<longrightarrow> out' ! j = (out[i := [?c]]) ! j)"
    using x' Cons.prems(3,4) by (intro Cons.IH) simp_all
  then obtain out' where w: "walk bwt lf_map ?x' (out[i := [?c]]) idx = Inr out'"
    and l: "length out' = n"
    and a: "\<forall>j < n. j \<in> set idx \<longrightarrow> length (out' ! j) = 1"
    and b: "\<forall>j < n. j \<notin> set idx \<longrightarrow> out' ! j = (out[i := [?c]]) ! j"
    by blast
  have a': "\<forall>j < n. j \<in> set (i # idx) \<longrightarrow> length (out' ! j) = 1"
  proof (intro allI impI)
    fix j assume j: "j < n" and mem: "j \<in> set (i # idx)"
    show "length (out' ! j) = 1"
    proof (cases "j \<in> set idx")
      case True
      with a j show ?thesis by blast
    next
      case False
      with mem have "j = i" by simp
      moreover from b j False have "out' ! j = (out[i := [?c]]) ! j" by blast
      ultimately show ?thesis using it by simp
    qed
  qed
  have b': "\<forall>j < n. j \<notin> set (i # idx) \<longrightarrow> out' ! j = out ! j"
  proof (intro allI impI)
    fix j assume j: "j < n" and nm: "j \<notin> set (i # idx)"
    then have "j \<notin> set idx" "j \<noteq> i" by auto
    with b j show "out' ! j = out ! j" by simp
  qed
  from step w l a' b' show ?case by simp
qed

lemma length_concat_singletons:
  "\<forall>j < length xs. length (xs ! j) = 1 \<Longrightarrow> length (concat xs) = length xs"
proof (induction xs)
  case Nil
  then show ?case by simp
next
  case (Cons x xs)
  from Cons.prems have "length x = 1" by auto
  moreover have "\<forall>j < length xs. length (xs ! j) = 1"
    using Cons.prems by auto
  ultimately show ?case using Cons.IH by simp
qed

lemma invert_absent_dollar:
  assumes "CHR ''$'' \<notin> set B"
  shows "invert_bwt_via_map B end_char = Inl ValueError"
proof -
  from build_map_range [of B] obtain lf_map where bm: "build_map B = Inr lf_map" by blast
  have "text_using_map B lf_map CHR ''$'' = Inl ValueError"
    using assms by (simp add: text_using_map_def str_index_def)
  with bm show ?thesis by (simp add: invert_bwt_via_map_def)
qed

lemma invert_present_dollar:
  assumes "CHR ''$'' \<in> set B"
  shows "\<exists>t. invert_bwt_via_map B end_char = Inr t \<and> length t = length B - 1"
proof -
  let ?n = "length B"
  let ?x = "length (takeWhile (\<lambda>c. c \<noteq> CHR ''$'') B)"
  from build_map_range [of B] obtain lf_map where bm: "build_map B = Inr lf_map"
    and len: "length lf_map = ?n"
    and rng: "\<forall>k < ?n. 0 \<le> lf_map ! k \<and> lf_map ! k < int ?n" by blast
  have idx: "str_index B CHR ''$'' = Inr (int ?x)"
    using assms by (simp only: str_index_def if_True)
  have xl: "?x < ?n" using index_found(1) [OF assms] .
  have "\<exists>out'. walk B lf_map (int ?x) (map (\<lambda>_. []) B) [0 ..< ?n] = Inr out' \<and>
          length out' = ?n \<and>
          (\<forall>j < ?n. j \<in> set [0 ..< ?n] \<longrightarrow> length (out' ! j) = 1) \<and>
          (\<forall>j < ?n. j \<notin> set [0 ..< ?n] \<longrightarrow> out' ! j = (map (\<lambda>_. []) B) ! j)"
    using xl by (intro walk_total [OF rng len]) simp_all
  then obtain out' where w: "walk B lf_map (int ?x) (map (\<lambda>_. []) B) [0 ..< ?n] = Inr out'"
    and l: "length out' = ?n" and one: "\<forall>j < ?n. length (out' ! j) = 1"
    by auto
  have lc: "length (concat out') = ?n"
    using length_concat_singletons [of out'] one l by simp
  have "text_using_map B lf_map CHR ''$'' = Inr (concat out')"
    by (simp only: text_using_map_def idx w sum.case)
  with bm have "invert_bwt_via_map B end_char = Inr (butlast (concat out'))"
    by (simp add: invert_bwt_via_map_def)
  with lc show ?thesis by simp
qed

end
